theory Spec2Isabelle
  imports Complex_Main
begin

section \<open>The HTTPS to MLLP gateway: connection pool, watchdog and handler\<close>

text \<open>
  A shallow embedding of \<^verbatim>\<open>src/mllp_http_https/https2mllp.py\<close>.

  The program is multi-threaded: one thread per inbound request runs
  \<^verbatim>\<open>MllpClient.send\<close>, and \<^verbatim>\<open>MllpClient._connect\<close> starts one thread running
  \<^verbatim>\<open>MllpClient._check_connection\<close> for every connection it creates. The threads share
  the list \<^verbatim>\<open>self.connections\<close>, the lock \<^verbatim>\<open>self.lock\<close> and the \<^verbatim>\<open>MllpConnection\<close>
  objects. The model is a step function on a global state: every thread has a program
  point named after the source line it is about to execute, and one step of one thread
  executes the statements up to the next point where another thread can observe or
  change shared data. The order of the steps, the passing of time and the answers of
  the network are given from outside as a list of events.

  Entering a \<^verbatim>\<open>with self.lock:\<close> block is a step of its own, which waits while another
  thread holds the lock; the body of the block and the release of the lock are one step.
  \<^verbatim>\<open>connection.close()\<close>, \<^verbatim>\<open>connection.send(data)\<close> and \<^verbatim>\<open>self._connect()\<close> are one step
  each: they only touch the connection of the calling thread and the socket. The
  watchdog reads \<^verbatim>\<open>connection.closed\<close> and \<^verbatim>\<open>connection.last_update\<close> without the lock,
  and line 36 and 37 read \<^verbatim>\<open>last_update\<close> twice, so these reads are steps of their own.

  Time (\<^verbatim>\<open>time.monotonic()\<close>, \<^verbatim>\<open>keep_alive\<close>) is a real number: the arithmetic of line
  35 to 41 is taken as exact.
\<close>

subsection \<open>Data\<close>

type_synonym bytes = string
type_synonym cid = nat
type_synonym tid = nat

text \<open>Exceptions. \<open>OSError\<close> carries the error number given by the network.\<close>

datatype error = OSError nat | TypeError | ValueError

text \<open>
  What a socket operation or \<^verbatim>\<open>send_mllp\<close> (module \<^verbatim>\<open>.mllp\<close>, an external collaborator)
  answers: it returns, with the bytes read where there are any, or it raises.
\<close>

datatype answer = Ret bytes | Exc error

text \<open>The calls made on sockets, in the order they are made.\<close>

datatype call =
    connect_call
  | send_mllp_call cid bytes
  | shutdown_call cid
  | close_call cid

datatype socket_state = SockConnected | SockClosed

text \<open>\<^verbatim>\<open>class MllpClientOptions\<close> (line 18).\<close>

record MllpClientOptions =
  keep_alive :: "real option"
  max_messages :: int
  timeout :: "real option"

text \<open>
  \<^verbatim>\<open>class MllpConnection\<close> (line 91). \<open>closed_attr\<close> is the attribute \<^verbatim>\<open>closed\<close>.
  \<open>close_attr\<close> is the instance attribute \<^verbatim>\<open>close\<close>: \<open>None\<close> as long as the instance
  has no such attribute, so that \<^verbatim>\<open>connection.close\<close> is the method of the class, and
  \<open>Some b\<close> once line 99 has bound it to the boolean \<open>b\<close>.
\<close>

record MllpConnection =
  closed_attr :: bool
  last_update :: "real option"
  message_count :: int
  close_attr :: "bool option"
  socket :: socket_state

text \<open>\<^verbatim>\<open>MllpConnection.__init__\<close> (line 92), on a socket that has just been connected.\<close>

definition MllpConnection_init :: MllpConnection where
  "MllpConnection_init =
     \<lparr>closed_attr = False, last_update = None, message_count = 0,
      close_attr = None, socket = SockConnected\<rparr>"

text \<open>
  The program points of a thread. \<open>S\<close> points belong to \<^verbatim>\<open>MllpClient.send\<close>, \<open>W\<close>
  points to \<^verbatim>\<open>MllpClient._check_connection\<close>; the number is the source line the thread
  executes next.
\<close>

datatype thread =
    S72 bytes
      \<comment> \<open>about to enter \<^verbatim>\<open>with self.lock:\<close>\<close>
  | S73 bytes
      \<comment> \<open>holds the lock; lines 73 to 78\<close>
  | S80 bytes
      \<comment> \<open>\<^verbatim>\<open>connection is None\<close>: about to call \<^verbatim>\<open>self._connect()\<close>\<close>
  | S81 bytes cid
      \<comment> \<open>about to call \<^verbatim>\<open>connection.send(data)\<close>\<close>
  | S82 cid bytes
      \<comment> \<open>has the response; at the test of line 82\<close>
  | S86 cid bytes
      \<comment> \<open>about to enter \<^verbatim>\<open>with self.lock:\<close>\<close>
  | S87 cid bytes
      \<comment> \<open>holds the lock; line 87, then returns\<close>
  | Returned bytes
      \<comment> \<open>\<^verbatim>\<open>send\<close> has returned the response\<close>
  | W34 cid
      \<comment> \<open>at the loop test \<^verbatim>\<open>while not connection.closed\<close>\<close>
  | W35 cid
      \<comment> \<open>at the test \<^verbatim>\<open>connection.last_update is not None\<close> (line 37)\<close>
  | W36 cid
      \<comment> \<open>the test was true: reads \<^verbatim>\<open>connection.last_update\<close> again and the clock\<close>
  | W42 cid real
      \<comment> \<open>in \<^verbatim>\<open>time.sleep(remaining)\<close>, until the given time\<close>
  | W45 cid
      \<comment> \<open>about to enter \<^verbatim>\<open>with self.lock:\<close>\<close>
  | W46 cid
      \<comment> \<open>holds the lock; line 46\<close>
  | W52 cid
      \<comment> \<open>about to call \<^verbatim>\<open>connection.close()\<close>\<close>
  | Exited
      \<comment> \<open>the loop of \<^verbatim>\<open>_check_connection\<close> has ended and the thread has returned\<close>
  | Raised error
      \<comment> \<open>an exception has left the thread's function\<close>

text \<open>
  The state: the fields of \<^verbatim>\<open>MllpClient\<close> (\<open>connections\<close>, \<open>lock\<close> with the thread
  that holds it), the \<^verbatim>\<open>MllpConnection\<close> objects by identity, the threads, the clock and
  the socket calls made so far.
\<close>

record state =
  connections :: "cid list"
  lock :: "tid option"
  heap :: "cid \<Rightarrow> MllpConnection"
  next_cid :: cid
  threads :: "tid \<Rightarrow> thread option"
  next_tid :: tid
  now :: real
  trace :: "call list"

definition init :: state where
  "init =
     \<lparr>connections = [], lock = None, heap = (\<lambda>_. MllpConnection_init), next_cid = 0,
      threads = (\<lambda>_. None), next_tid = 0, now = 0, trace = []\<rparr>"

subsection \<open>Operations\<close>

definition goto :: "tid \<Rightarrow> thread \<Rightarrow> state \<Rightarrow> state" where
  "goto t pc s = s\<lparr>threads := (threads s)(t \<mapsto> pc)\<rparr>"

text \<open>\<^verbatim>\<open>threading.Thread(...).start()\<close>: a new thread at the given program point.\<close>

definition spawn :: "thread \<Rightarrow> state \<Rightarrow> state" where
  "spawn pc s =
     s\<lparr>threads := (threads s)(next_tid s \<mapsto> pc), next_tid := Suc (next_tid s)\<rparr>"

text \<open>
  \<^verbatim>\<open>MllpConnection.close\<close> (line 98). Calling \<^verbatim>\<open>connection.close()\<close> looks the attribute
  \<^verbatim>\<open>close\<close> up: once the instance has one, it is a boolean and the call raises
  \<^verbatim>\<open>TypeError\<close>. Otherwise line 99 binds the instance attribute \<^verbatim>\<open>close\<close> to \<^verbatim>\<open>True\<close>;
  \<^verbatim>\<open>closed\<close> is not assigned. \<^verbatim>\<open>shutdown\<close> may raise, and then line 101 is not reached.
\<close>

definition MllpConnection_close :: "cid \<Rightarrow> answer \<Rightarrow> state \<Rightarrow> error option \<times> state" where
  "MllpConnection_close c a s =
     (case close_attr (heap s c) of
        Some b \<Rightarrow> (Some TypeError, s)
      | None \<Rightarrow>
          (let s1 = s\<lparr>heap := (heap s)(c := (heap s c)\<lparr>close_attr := Some True\<rparr>),
                      trace := trace s @ [shutdown_call c]\<rparr>
           in case a of
                Exc e \<Rightarrow> (Some e, s1)
              | Ret _ \<Rightarrow>
                  (None, s1\<lparr>heap := (heap s1)(c := (heap s1 c)\<lparr>socket := SockClosed\<rparr>),
                            trace := trace s1 @ [close_call c]\<rparr>)))"

text \<open>\<^verbatim>\<open>MllpConnection.send\<close> (line 104).\<close>

definition MllpConnection_send ::
  "cid \<Rightarrow> bytes \<Rightarrow> answer \<Rightarrow> state \<Rightarrow> (error + bytes) \<times> state" where
  "MllpConnection_send c data a s =
     (let s1 = s\<lparr>heap := (heap s)(c := (heap s c)\<lparr>message_count := message_count (heap s c) + 1\<rparr>),
                 trace := trace s @ [send_mllp_call c data]\<rparr>
      in case a of Exc e \<Rightarrow> (Inl e, s1) | Ret response \<Rightarrow> (Inr response, s1))"

text \<open>
  \<^verbatim>\<open>MllpClient._connect\<close> (line 54). \<^verbatim>\<open>s.connect\<close> may raise; otherwise a new
  \<^verbatim>\<open>MllpConnection\<close> is made and, when \<^verbatim>\<open>keep_alive\<close> is not \<^verbatim>\<open>None\<close>, a thread is started
  on \<^verbatim>\<open>_check_connection(connection)\<close>.
\<close>

definition MllpClient_connect :: "MllpClientOptions \<Rightarrow> answer \<Rightarrow> state \<Rightarrow> (error + cid) \<times> state" where
  "MllpClient_connect opts a s =
     (let s1 = s\<lparr>trace := trace s @ [connect_call]\<rparr>
      in case a of
           Exc e \<Rightarrow> (Inl e, s1)
         | Ret _ \<Rightarrow>
             (let c = next_cid s1;
                  s2 = s1\<lparr>heap := (heap s1)(c := MllpConnection_init), next_cid := Suc c\<rparr>
              in (Inr c, if keep_alive opts \<noteq> None then spawn (W34 c) s2 else s2)))"

text \<open>
  Lines 40 to 43 of \<^verbatim>\<open>_check_connection\<close>, once \<^verbatim>\<open>elasped\<close> is known: sleep when
  \<^verbatim>\<open>0 < remaining\<close>, go to the removal otherwise. The sleep ends when the clock has
  advanced by \<^verbatim>\<open>remaining\<close>.
\<close>

definition remaining :: "real \<Rightarrow> real \<Rightarrow> real" where
  "remaining ka elasped = ka + elasped"

definition check_remaining :: "MllpClientOptions \<Rightarrow> tid \<Rightarrow> cid \<Rightarrow> real \<Rightarrow> state \<Rightarrow> state" where
  "check_remaining opts t c elasped s =
     (case keep_alive opts of
        None \<Rightarrow> goto t (Raised TypeError) s
      | Some ka \<Rightarrow>
          if 0 < remaining ka elasped then goto t (W42 c (now s + remaining ka elasped)) s
          else goto t (W45 c) s)"

text \<open>
  \<^verbatim>\<open>MllpClient.send\<close> (line 71): one step of thread \<open>t\<close> at its program point, with the
  network's answer \<open>a\<close> to the socket call the step makes, if it makes one.
\<close>

fun MllpClient_send ::
  "MllpClientOptions \<Rightarrow> tid \<Rightarrow> answer \<Rightarrow> thread \<Rightarrow> state \<Rightarrow> state" where
  "MllpClient_send opts t a (S72 data) s =
     (if lock s = None then goto t (S73 data) (s\<lparr>lock := Some t\<rparr>) else s)"
| "MllpClient_send opts t a (S73 data) s =
     (if connections s = [] then goto t (S80 data) (s\<lparr>lock := None\<rparr>)
      else
        (let c = last (connections s)
         in goto t (S81 data c)
              (s\<lparr>connections := butlast (connections s),
                 heap := (heap s)(c := (heap s c)\<lparr>last_update := None\<rparr>),
                 lock := None\<rparr>)))"
| "MllpClient_send opts t a (S80 data) s =
     (case MllpClient_connect opts a s of
        (Inl e, s1) \<Rightarrow> goto t (Raised e) s1
      | (Inr c, s1) \<Rightarrow> goto t (S81 data c) s1)"
| "MllpClient_send opts t a (S81 data c) s =
     (case MllpConnection_send c data a s of
        (Inl e, s1) \<Rightarrow> goto t (Raised e) s1
      | (Inr response, s1) \<Rightarrow> goto t (S82 c response) s1)"
| "MllpClient_send opts t a (S82 c response) s =
     (if max_messages opts \<le> message_count (heap s c) \<and> max_messages opts \<ge> 0 then
        (case MllpConnection_close c a s of
           (Some e, s1) \<Rightarrow> goto t (Raised e) s1
         | (None, s1) \<Rightarrow> goto t (Returned response) s1)
      else
        goto t (S86 c response)
          (s\<lparr>heap := (heap s)(c := (heap s c)\<lparr>last_update := Some (now s)\<rparr>)\<rparr>))"
| "MllpClient_send opts t a (S86 c response) s =
     (if lock s = None then goto t (S87 c response) (s\<lparr>lock := Some t\<rparr>) else s)"
| "MllpClient_send opts t a (S87 c response) s =
     goto t (Returned response) (s\<lparr>connections := connections s @ [c], lock := None\<rparr>)"
| "MllpClient_send opts t a pc s = s"

text \<open>
  \<^verbatim>\<open>MllpClient._check_connection\<close> (line 33), in the same way. \<^verbatim>\<open>list.remove\<close> takes out
  the first occurrence and raises \<^verbatim>\<open>ValueError\<close> when there is none; the exception leaves
  the \<^verbatim>\<open>with\<close> block, which releases the lock, and is passed over at line 47. The loop has
  no \<^verbatim>\<open>break\<close> or \<^verbatim>\<open>return\<close>: every path of the body leads back to the loop test.
\<close>

fun MllpClient_check_connection ::
  "MllpClientOptions \<Rightarrow> tid \<Rightarrow> answer \<Rightarrow> thread \<Rightarrow> state \<Rightarrow> state" where
  "MllpClient_check_connection opts t a (W34 c) s =
     (if closed_attr (heap s c) then goto t Exited s else goto t (W35 c) s)"
| "MllpClient_check_connection opts t a (W35 c) s =
     (case last_update (heap s c) of
        None \<Rightarrow> check_remaining opts t c 0 s
      | Some _ \<Rightarrow> goto t (W36 c) s)"
| "MllpClient_check_connection opts t a (W36 c) s =
     (case last_update (heap s c) of
        None \<Rightarrow> goto t (Raised TypeError) s
      | Some lu \<Rightarrow> check_remaining opts t c (lu - now s) s)"
| "MllpClient_check_connection opts t a (W42 c wake) s =
     (if wake \<le> now s then goto t (W34 c) s else s)"
| "MllpClient_check_connection opts t a (W45 c) s =
     (if lock s = None then goto t (W46 c) (s\<lparr>lock := Some t\<rparr>) else s)"
| "MllpClient_check_connection opts t a (W46 c) s =
     (if c \<in> set (connections s) then
        (let s1 = s\<lparr>connections := remove1 c (connections s), lock := None\<rparr>
         in case keep_alive opts of
              None \<Rightarrow> goto t (Raised TypeError) s1
            | Some ka \<Rightarrow> if ka > 0 then goto t (W52 c) s1 else goto t (W34 c) s1)
      else goto t (W34 c) (s\<lparr>lock := None\<rparr>))"
| "MllpClient_check_connection opts t a (W52 c) s =
     (case MllpConnection_close c a s of
        (Some e, s1) \<Rightarrow> goto t (Raised e) s1
      | (None, s1) \<Rightarrow> goto t (W34 c) s1)"
| "MllpClient_check_connection opts t a pc s = s"

text \<open>
  One step of thread \<open>t\<close> at the program point \<open>pc\<close>. A thread that has returned or
  raised makes no step.
\<close>

fun exec :: "MllpClientOptions \<Rightarrow> tid \<Rightarrow> answer \<Rightarrow> thread \<Rightarrow> state \<Rightarrow> state" where
  "exec opts t a (W34 c) s = MllpClient_check_connection opts t a (W34 c) s"
| "exec opts t a (W35 c) s = MllpClient_check_connection opts t a (W35 c) s"
| "exec opts t a (W36 c) s = MllpClient_check_connection opts t a (W36 c) s"
| "exec opts t a (W42 c wake) s = MllpClient_check_connection opts t a (W42 c wake) s"
| "exec opts t a (W45 c) s = MllpClient_check_connection opts t a (W45 c) s"
| "exec opts t a (W46 c) s = MllpClient_check_connection opts t a (W46 c) s"
| "exec opts t a (W52 c) s = MllpClient_check_connection opts t a (W52 c) s"
| "exec opts t a pc s = MllpClient_send opts t a pc s"

text \<open>
  Events: time passes; a request thread calls \<^verbatim>\<open>MllpClient.send(data)\<close>; a thread makes
  its next step.
\<close>

datatype event = Tick real | Call bytes | Run tid answer

fun step :: "MllpClientOptions \<Rightarrow> event \<Rightarrow> state \<Rightarrow> state" where
  "step opts (Tick d) s = s\<lparr>now := now s + max d 0\<rparr>"
| "step opts (Call data) s = spawn (S72 data) s"
| "step opts (Run t a) s =
     (case threads s t of None \<Rightarrow> s | Some pc \<Rightarrow> exec opts t a pc s)"

fun run :: "MllpClientOptions \<Rightarrow> event list \<Rightarrow> state \<Rightarrow> state" where
  "run opts [] s = s"
| "run opts (e # es) s = run opts es (step opts e s)"

subsection \<open>The handler\<close>

text \<open>
  \<^verbatim>\<open>HttpsHandler\<close> (line 121): the fields \<^verbatim>\<open>do_POST\<close> reads. \<open>content_length\<close> is
  \<^verbatim>\<open>self.headers["Content-Length"]\<close> (\<open>None\<close> when the request has no such header) and
  \<open>rfile\<close> the bytes that can be read from the request.
\<close>

record HttpsHandler =
  content_type :: "string option"
  http_keep_alive :: "int option"
  content_length :: "string option"
  rfile :: bytes

datatype header_value = Length nat | Text string | Timeout int

record response =
  status :: nat
  headers :: "(string \<times> header_value) list"
  wfile :: bytes

text \<open>\<^verbatim>\<open>rfile.read(n)\<close>: at most \<open>n\<close> bytes, everything when \<open>n\<close> is negative.\<close>

definition rfile_read :: "int \<Rightarrow> bytes \<Rightarrow> bytes" where
  "rfile_read n b = (if n < 0 then b else take (nat n) b)"

text \<open>
  \<^verbatim>\<open>HttpsHandler.do_POST\<close> (line 130). \<open>int_of\<close> is Python's \<^verbatim>\<open>int\<close> on a string
  (\<open>None\<close>: \<^verbatim>\<open>ValueError\<close>), \<open>send\<close> is \<^verbatim>\<open>self.mllp_client.send\<close>.
\<close>

definition do_POST ::
  "(string \<Rightarrow> int option) \<Rightarrow> (bytes \<Rightarrow> error + bytes) \<Rightarrow> HttpsHandler \<Rightarrow> error + response" where
  "do_POST int_of send h =
     (case content_length h of
        None \<Rightarrow> Inl TypeError
      | Some v \<Rightarrow>
          (case int_of v of
             None \<Rightarrow> Inl ValueError
           | Some n \<Rightarrow>
               (let data = rfile_read n (rfile h)
                in case send data of
                     Inl e \<Rightarrow> Inl e
                   | Inr r \<Rightarrow>
                       Inr \<lparr>status = 201,
                            headers =
                              [(''Content-Length'', Length (length r))]
                              @ (case content_type h of
                                   None \<Rightarrow> []
                                 | Some ct \<Rightarrow> if ct = [] then [] else [(''Content-Type'', Text ct)])
                              @ (case http_keep_alive h of
                                   None \<Rightarrow> []
                                 | Some k \<Rightarrow> [(''Keep-Alive'', Timeout k)]),
                            wfile = r\<rparr>)))"

subsection \<open>What is observed of a state\<close>

text \<open>
  The number of \<^verbatim>\<open>connect\<close> calls and of socket \<^verbatim>\<open>close\<close> calls made so far, whether a
  thread is inside \<^verbatim>\<open>time.sleep\<close>, and whether it has ended.
\<close>

definition connects :: "state \<Rightarrow> nat" where
  "connects s = length (filter (\<lambda>x. x = connect_call) (trace s))"




fun terminal :: "thread \<Rightarrow> bool" where
  "terminal (Returned response) = True"
| "terminal (Raised e) = True"
| "terminal Exited = True"
| "terminal _ = False"

subsection \<open>Invariants of the reachable states\<close>

text \<open>
  A thread \<open>owns\<close> the connection it has in a local variable and may still use: a send
  thread from the pop or the connect until it has closed or appended the connection, a
  watchdog between its successful \<^verbatim>\<open>remove\<close> and its \<^verbatim>\<open>close()\<close>. The idle collection has
  no duplicates, no connection is both idle and owned or owned twice, and a connection
  that is idle or owned has not been closed.
\<close>

fun owns :: "thread \<Rightarrow> cid \<Rightarrow> bool" where
  "owns (S81 data c') c = (c' = c)"
| "owns (S82 c' response) c = (c' = c)"
| "owns (S86 c' response) c = (c' = c)"
| "owns (S87 c' response) c = (c' = c)"
| "owns (W52 c') c = (c' = c)"
| "owns _ c = False"

definition pool_inv :: "state \<Rightarrow> bool" where
  "pool_inv s =
     (distinct (connections s)
      \<and> (\<forall>c \<in> set (connections s). c < next_cid s \<and> close_attr (heap s c) = None)
      \<and> (\<forall>t pc c. threads s t = Some pc \<longrightarrow> owns pc c \<longrightarrow>
             c \<notin> set (connections s) \<and> c < next_cid s \<and> close_attr (heap s c) = None)
      \<and> (\<forall>t t' pc pc' c. threads s t = Some pc \<longrightarrow> threads s t' = Some pc' \<longrightarrow>
             owns pc c \<longrightarrow> owns pc' c \<longrightarrow> t = t')
      \<and> (\<forall>t pc. threads s t = Some pc \<longrightarrow> t < next_tid s)
      \<and> (\<forall>c. close_attr (heap s c) = None \<longrightarrow> socket (heap s c) = SockConnected))"

text \<open>
  The lock is held by exactly the thread that is inside a \<^verbatim>\<open>with self.lock:\<close> block, and
  thread identifiers are given out in order.
\<close>

fun holds_lock :: "thread \<Rightarrow> bool" where
  "holds_lock (S73 data) = True"
| "holds_lock (S87 c response) = True"
| "holds_lock (W46 c) = True"
| "holds_lock _ = False"

definition locked_by :: "(tid \<Rightarrow> thread option) \<Rightarrow> tid \<Rightarrow> bool" where
  "locked_by ths t = (case ths t of None \<Rightarrow> False | Some pc \<Rightarrow> holds_lock pc)"

definition lock_inv :: "state \<Rightarrow> bool" where
  "lock_inv s =
     ((\<forall>t. locked_by (threads s) t = (lock s = Some t))
      \<and> (\<forall>t. next_tid s \<le> t \<longrightarrow> threads s t = None))"

text \<open>
  \<^verbatim>\<open>closed\<close> is never true and \<^verbatim>\<open>close\<close> is never bound to \<^verbatim>\<open>False\<close>; no
  \<^verbatim>\<open>last_update\<close> lies in the future; a watchdog sleeps or is about to close only when
  \<^verbatim>\<open>keep_alive\<close> is positive, and none has left its loop; a connection that a send
  thread is using has \<^verbatim>\<open>last_update = None\<close>.
\<close>

definition flags_ok :: "state \<Rightarrow> bool" where
  "flags_ok s = (\<forall>c. \<not> closed_attr (heap s c) \<and> close_attr (heap s c) \<noteq> Some False)"

definition time_inv :: "state \<Rightarrow> bool" where
  "time_inv s = (\<forall>c lu. last_update (heap s c) = Some lu \<longrightarrow> lu \<le> now s)"

fun pc_ok :: "MllpClientOptions \<Rightarrow> thread \<Rightarrow> bool" where
  "pc_ok opts (W42 c wake) = (case keep_alive opts of None \<Rightarrow> False | Some ka \<Rightarrow> 0 < ka)"
| "pc_ok opts (W52 c) = (case keep_alive opts of None \<Rightarrow> False | Some ka \<Rightarrow> 0 < ka)"
| "pc_ok opts Exited = False"
| "pc_ok opts _ = True"

definition pc_inv :: "MllpClientOptions \<Rightarrow> state \<Rightarrow> bool" where
  "pc_inv opts s = (\<forall>t pc. threads s t = Some pc \<longrightarrow> pc_ok opts pc)"

fun leased :: "thread \<Rightarrow> cid \<Rightarrow> bool" where
  "leased (S81 data c') c = (c' = c)"
| "leased (S82 c' response) c = (c' = c)"
| "leased _ c = False"

definition leased_inv :: "state \<Rightarrow> bool" where
  "leased_inv s =
     (\<forall>t pc c. threads s t = Some pc \<longrightarrow> leased pc c \<longrightarrow> last_update (heap s c) = None)"

definition invariant :: "MllpClientOptions \<Rightarrow> state \<Rightarrow> bool" where
  "invariant opts s =
     (pool_inv s \<and> lock_inv s \<and> flags_ok s \<and> time_inv s \<and> pc_inv opts s \<and> leased_inv s)"

text \<open>
  A connection is \<open>discarded\<close> when it exists, is not idle and is owned by no thread:
  nothing can reach it any more.
\<close>

definition discarded :: "state \<Rightarrow> cid \<Rightarrow> bool" where
  "discarded s c =
     (c < next_cid s \<and> c \<notin> set (connections s)
      \<and> (\<forall>t pc. threads s t = Some pc \<longrightarrow> \<not> owns pc c))"

subsection \<open>Concrete inputs\<close>

text \<open>
  Options, requests and schedules at which the theorems below are evaluated.
\<close>

definition opts1 :: MllpClientOptions where
  "opts1 = \<lparr>keep_alive = Some 5, max_messages = 3, timeout = Some 2\<rparr>"

definition opts_rot :: MllpClientOptions where
  "opts_rot = \<lparr>keep_alive = Some 5, max_messages = 1, timeout = Some 2\<rparr>"



definition h1 :: HttpsHandler where
  "h1 = \<lparr>content_type = Some ''x-application/hl7-v2+er7'', http_keep_alive = Some 5,
         content_length = Some ''3'', rfile = ''MSH''\<rparr>"

definition int1 :: "string \<Rightarrow> int option" where
  "int1 v = (if v = ''3'' then Some 3 else None)"

definition send1 :: "bytes \<Rightarrow> error + bytes" where
  "send1 data = (if data = ''MSH'' then Inr ''ACK!'' else Inl (OSError 104))"

definition to_S80 :: "event list" where
  "to_S80 = [Call ''MSH'', Run 0 (Ret []), Run 0 (Ret [])]"

definition to_S81 :: "event list" where
  "to_S81 = to_S80 @ [Run 0 (Ret [])]"

definition to_S82 :: "event list" where
  "to_S82 = Tick 3 # to_S81 @ [Run 0 (Ret ''ACK'')]"

definition to_S87 :: "event list" where
  "to_S87 = to_S82 @ [Run 0 (Ret []), Run 0 (Ret [])]"


definition rotated :: "event list" where
  "rotated = to_S82 @ [Run 0 (Ret [])]"

definition after_failure :: "event list" where
  "after_failure =
     [Tick 7, Run 1 (Ret []), Run 1 (Ret []), Run 1 (Ret []), Run 1 (Ret []),
      Call ''MSH2'', Run 2 (Ret []), Run 2 (Ret [])]"



definition evicted :: "event list" where
  "evicted =
     to_S87 @ [Run 0 (Ret []), Tick 6, Run 1 (Ret []), Run 1 (Ret []), Run 1 (Ret []),
               Run 1 (Ret []), Run 1 (Ret []), Run 1 (Ret [])]"



definition two_sends :: "event list" where
  "two_sends =
     [Call ''A'', Call ''B'',
      Run 0 (Ret []), Run 0 (Ret []), Run 1 (Ret []), Run 1 (Ret []),
      Run 0 (Ret []), Run 1 (Ret []),
      Run 0 (Ret ''ackA''), Run 1 (Ret ''ackB''),
      Tick 1,
      Run 0 (Ret []), Run 1 (Ret []),
      Run 0 (Ret []), Run 0 (Ret []), Run 1 (Ret []), Run 1 (Ret [])]"

definition third_send :: "event list" where
  "third_send = two_sends @ [Call ''C'', Run 4 (Ret [])]"




subsection \<open>Preservation of the invariants\<close>

lemmas op_defs = goto_def spawn_def MllpConnection_close_def MllpConnection_send_def
  MllpClient_connect_def check_remaining_def Let_def

lemmas eval_defs = init_def MllpConnection_init_def op_defs remaining_def

lemma run_invariant:
  assumes "P s" and "\<And>e s. P s \<Longrightarrow> P (step opts e s)"
  shows "P (run opts es s)"
  using assms(1) by (induction es arbitrary: s) (auto intro: assms(2))

lemma last_notin_butlast: "distinct xs \<Longrightarrow> xs \<noteq> [] \<Longrightarrow> last xs \<notin> set (butlast xs)"
  by (induction xs) (auto dest: in_set_butlastD)

lemma pool_inv_init: "pool_inv init"
  by (simp add: pool_inv_def init_def MllpConnection_init_def)

lemma pool_inv_spawn:
  "pool_inv s \<Longrightarrow> (\<And>c. \<not> owns pc c) \<Longrightarrow> pool_inv (spawn pc s)"
  unfolding pool_inv_def spawn_def
  by (intro conjI; auto simp: less_Suc_eq split: if_splits)

lemma pool_inv_pop:
  assumes "pool_inv s" and "threads s t = Some (S73 d)"
  shows "pool_inv (exec opts t a (S73 d) s)"
proof (cases "connections s = []")
  case True
  with assms show ?thesis
    unfolding pool_inv_def by (auto simp: goto_def)
next
  case False
  then have mem: "last (connections s) \<in> set (connections s)" by simp
  from assms(1) have free: "\<And>t' pc'. threads s t' = Some pc' \<Longrightarrow> \<not> owns pc' (last (connections s))"
    using mem unfolding pool_inv_def by blast
  from assms(1) False have nb: "last (connections s) \<notin> set (butlast (connections s))"
    by (simp add: pool_inv_def last_notin_butlast)
  show ?thesis
    using assms False mem free nb unfolding pool_inv_def
    by (intro conjI) (auto simp: goto_def Let_def distinct_butlast dest: in_set_butlastD)
qed

lemma pool_inv_exec:
  "pool_inv s \<Longrightarrow> threads s t = Some pc \<Longrightarrow> pool_inv (exec opts t a pc s)"
proof (cases "\<exists>d. pc = S73 d")
  case True
  assume "pool_inv s" "threads s t = Some pc"
  then show ?thesis using True by (auto simp only: intro: pool_inv_pop)
next
  case False
  assume "pool_inv s" "threads s t = Some pc"
  then show ?thesis
    using False unfolding pool_inv_def
    by (cases pc; intro conjI;
        auto simp: op_defs MllpConnection_init_def less_Suc_eq
          split: if_splits option.splits answer.splits)
qed

lemma pool_inv_step: "pool_inv s \<Longrightarrow> pool_inv (step opts e s)"
proof (cases e)
  case (Tick d)
  assume "pool_inv s"
  then show ?thesis using Tick by (simp add: pool_inv_def)
next
  case (Call d)
  assume "pool_inv s"
  then show ?thesis using Call by (simp add: pool_inv_spawn)
next
  case (Run t a)
  assume "pool_inv s"
  then show ?thesis using Run by (cases "threads s t") (simp_all add: pool_inv_exec)
qed

lemma locked_by_upd:
  "locked_by (ths(t \<mapsto> pc)) t' = (if t' = t then holds_lock pc else locked_by ths t')"
  by (simp add: locked_by_def)

lemma lock_inv_init: "lock_inv init"
  by (simp add: lock_inv_def init_def locked_by_def)

lemma lock_inv_spawn:
  assumes "lock_inv s" "\<not> holds_lock pc"
  shows "lock_inv (spawn pc s)"
proof -
  have L: "\<And>t'. locked_by (threads s) t' = (lock s = Some t')"
    and F: "\<And>t'. next_tid s \<le> t' \<Longrightarrow> threads s t' = None"
    using assms(1) by (auto simp: lock_inv_def)
  have "lock s \<noteq> Some (next_tid s)"
    using L [of "next_tid s"] F [of "next_tid s"] by (simp add: locked_by_def)
  then show ?thesis
    unfolding lock_inv_def spawn_def using assms(2)
    by (auto simp: locked_by_upd L F)
qed

lemma lock_inv_exec:
  assumes "lock_inv s" "threads s t = Some pc"
  shows "lock_inv (exec opts t a pc s)"
proof -
  have L: "\<And>t'. locked_by (threads s) t' = (lock s = Some t')"
    and F: "\<And>t'. next_tid s \<le> t' \<Longrightarrow> threads s t' = None"
    using assms(1) by (auto simp: lock_inv_def)
  have me: "(lock s = Some t) = holds_lock pc"
    using L [of t] assms(2) by (simp add: locked_by_def)
  have lt: "t < next_tid s"
    using F [of t] assms(2) by (cases "t < next_tid s") auto
  have nx: "lock s \<noteq> Some (next_tid s)"
    using L [of "next_tid s"] F [of "next_tid s"] by (simp add: locked_by_def)
  show ?thesis
    unfolding lock_inv_def using me lt nx
    by (cases pc)
       (auto simp: op_defs locked_by_upd L F split: if_splits option.splits answer.splits)
qed

lemma lock_inv_step: "lock_inv s \<Longrightarrow> lock_inv (step opts e s)"
  by (cases e)
     (auto simp: lock_inv_spawn lock_inv_exec split: option.splits, simp add: lock_inv_def)

lemma flags_ok_init: "flags_ok init"
  by (simp add: flags_ok_def init_def MllpConnection_init_def)

lemma flags_ok_exec: "flags_ok s \<Longrightarrow> flags_ok (exec opts t a pc s)"
  by (cases pc)
     (auto simp: flags_ok_def op_defs MllpConnection_init_def
           split: option.splits answer.splits if_splits)

lemma flags_ok_step: "flags_ok s \<Longrightarrow> flags_ok (step opts e s)"
  by (cases e) (auto simp: flags_ok_exec split: option.splits, auto simp: flags_ok_def spawn_def)

lemma time_inv_init: "time_inv init"
  by (simp add: time_inv_def init_def MllpConnection_init_def)

lemma time_inv_exec: "time_inv s \<Longrightarrow> time_inv (exec opts t a pc s)"
  by (cases pc)
     (auto simp: time_inv_def op_defs MllpConnection_init_def
           split: option.splits answer.splits if_splits)

lemma time_inv_step: "time_inv s \<Longrightarrow> time_inv (step opts e s)"
  apply (cases e)
  apply (auto simp: time_inv_exec split: option.splits)
  apply (fastforce simp: time_inv_def)
  apply (auto simp: time_inv_def spawn_def)
  done

lemma pc_inv_init: "pc_inv opts init"
  by (simp add: pc_inv_def init_def)

lemma pc_inv_exec:
  assumes "pc_inv opts s" "flags_ok s" "time_inv s" "threads s t = Some pc"
  shows "pc_inv opts (exec opts t a pc s)"
proof -
  have P: "\<And>t' pc'. threads s t' = Some pc' \<Longrightarrow> pc_ok opts pc'"
    using assms(1) by (auto simp: pc_inv_def)
  have C: "\<And>c. \<not> closed_attr (heap s c)"
    using assms(2) by (simp add: flags_ok_def)
  have T: "\<And>c lu. last_update (heap s c) = Some lu \<Longrightarrow> lu \<le> now s"
    using assms(3) by (auto simp: time_inv_def)
  show ?thesis
    unfolding pc_inv_def
    apply (cases pc)
    apply (auto simp: op_defs remaining_def P C split: if_splits option.splits answer.splits dest: T)
    done
qed

lemma pc_inv_step:
  "pc_inv opts s \<Longrightarrow> flags_ok s \<Longrightarrow> time_inv s \<Longrightarrow> pc_inv opts (step opts e s)"
  by (cases e)
     (auto simp: pc_inv_exec split: option.splits, auto simp: pc_inv_def spawn_def)

lemma leased_owns: "leased pc c \<Longrightarrow> owns pc c"
  by (cases pc) auto

lemma leased_inv_init: "leased_inv init"
  by (simp add: leased_inv_def init_def)

lemma leased_inv_spawn: "leased_inv s \<Longrightarrow> (\<And>c. \<not> leased pc c) \<Longrightarrow> leased_inv (spawn pc s)"
  by (auto simp: leased_inv_def spawn_def)

lemma leased_inv_exec:
  assumes "leased_inv s" "pool_inv s" "threads s t = Some pc"
  shows "leased_inv (exec opts t a pc s)"
proof -
  have L: "\<And>t' pc' c. threads s t' = Some pc' \<Longrightarrow> leased pc' c \<Longrightarrow> last_update (heap s c) = None"
    using assms(1) by (auto simp: leased_inv_def)
  have O: "\<And>t' pc' c. threads s t' = Some pc' \<Longrightarrow> leased pc' c \<Longrightarrow>
             c \<notin> set (connections s) \<and> c < next_cid s"
    using assms(2) leased_owns unfolding pool_inv_def by blast
  have U: "\<And>t' pc' c. threads s t' = Some pc' \<Longrightarrow> leased pc' c \<Longrightarrow> owns pc c \<Longrightarrow> t' = t"
    using assms(2,3) leased_owns unfolding pool_inv_def by blast
  show ?thesis
  proof (cases pc)
    case (S73 d)
    show ?thesis
    proof (cases "connections s = []")
      case True
      then show ?thesis using S73 L unfolding leased_inv_def by (auto simp: goto_def)
    next
      case False
      then have "last (connections s) \<in> set (connections s)" by simp
      then have "\<And>t' pc'. threads s t' = Some pc' \<Longrightarrow> \<not> leased pc' (last (connections s))"
        using O by blast
      then show ?thesis using S73 False L unfolding leased_inv_def
        by (auto simp: goto_def Let_def)
    qed
  next
    case (S80 d)
    have "\<And>t' pc'. threads s t' = Some pc' \<Longrightarrow> \<not> leased pc' (next_cid s)"
      using O by blast
    then show ?thesis using S80 L unfolding leased_inv_def
      by (auto simp: op_defs MllpConnection_init_def split: answer.splits if_splits)
  next
    case (S82 c r)
    have "\<And>t' pc'. threads s t' = Some pc' \<Longrightarrow> leased pc' c \<Longrightarrow> t' = t"
      using U S82 by simp
    then show ?thesis using S82 L unfolding leased_inv_def
      by (auto simp: op_defs split: answer.splits if_splits option.splits)
  qed (use L assms(3) in \<open>auto simp: leased_inv_def op_defs remaining_def
         split: answer.splits if_splits option.splits\<close>)
qed

lemma leased_inv_step: "leased_inv s \<Longrightarrow> pool_inv s \<Longrightarrow> leased_inv (step opts e s)"
  by (cases e)
     (auto simp: leased_inv_exec leased_inv_spawn split: option.splits, simp add: leased_inv_def)

lemma invariant_init: "invariant opts init"
  by (simp add: invariant_def pool_inv_init lock_inv_init flags_ok_init time_inv_init pc_inv_init
        leased_inv_init)

lemma invariant_step: "invariant opts s \<Longrightarrow> invariant opts (step opts e s)"
  by (simp add: invariant_def pool_inv_step lock_inv_step flags_ok_step time_inv_step pc_inv_step
        leased_inv_step)

lemma invariant_run: "invariant opts s \<Longrightarrow> invariant opts (run opts es s)"
  by (rule run_invariant) (auto intro: invariant_step)

lemma invariant_reach: "invariant opts (run opts es init)"
  by (rule invariant_run [OF invariant_init])

subsection \<open>Consequences\<close>

lemma owner_facts:
  assumes "invariant opts s" "threads s t = Some pc" "owns pc c"
  shows "c \<notin> set (connections s)" "c < next_cid s" "close_attr (heap s c) = None"
    "socket (heap s c) = SockConnected"
    "\<And>t' pc'. threads s t' = Some pc' \<Longrightarrow> owns pc' c \<Longrightarrow> t' = t"
proof -
  have p: "pool_inv s" using assms(1) by (simp add: invariant_def)
  show "c \<notin> set (connections s)" "c < next_cid s" "close_attr (heap s c) = None"
    using p assms(2,3) unfolding pool_inv_def by blast+
  then show "socket (heap s c) = SockConnected"
    using p unfolding pool_inv_def by blast
  show "\<And>t' pc'. threads s t' = Some pc' \<Longrightarrow> owns pc' c \<Longrightarrow> t' = t"
    using p assms(2,3) unfolding pool_inv_def by blast
qed

lemma discarded_exec:
  assumes "discarded s c" "threads s t = Some pc"
  shows "discarded (exec opts t a pc s) c \<and> heap (exec opts t a pc s) c = heap s c"
proof -
  have N: "\<And>t' pc'. threads s t' = Some pc' \<Longrightarrow> \<not> owns pc' c"
    and M: "c \<notin> set (connections s)" and B: "c < next_cid s"
    using assms(1) by (auto simp: discarded_def)
  have me: "\<not> owns pc c" using N assms(2) by blast
  show ?thesis
  proof (cases pc)
    case (S73 d)
    have "connections s \<noteq> [] \<Longrightarrow> last (connections s) \<noteq> c"
      using M last_in_set by metis
    then show ?thesis using S73 N M B unfolding discarded_def
      by (auto simp: goto_def Let_def dest: in_set_butlastD)
  qed (use N M B me in \<open>auto simp: discarded_def op_defs remaining_def
         split: answer.splits if_splits option.splits\<close>)
qed

lemma discarded_step:
  "discarded s c \<Longrightarrow> discarded (step opts e s) c \<and> heap (step opts e s) c = heap s c"
  by (cases e)
     (auto simp: discarded_exec split: option.splits, auto simp: discarded_def spawn_def)

lemma discarded_run:
  "discarded s c \<Longrightarrow> discarded (run opts es s) c \<and> heap (run opts es s) c = heap s c"
proof (induction es arbitrary: s)
  case Nil
  then show ?case by simp
next
  case (Cons e es)
  from Cons.prems have "discarded (step opts e s) c" and "heap (step opts e s) c = heap s c"
    using discarded_step by blast+
  with Cons.IH [of "step opts e s"] show ?case by simp
qed

lemma release_owner:
  assumes "invariant opts s" "threads s t = Some pc" "owns pc c"
    and "next_cid s' = next_cid s" "connections s' = connections s"
    and "threads s' = (threads s)(t \<mapsto> pc')" "\<not> owns pc' c"
  shows "discarded s' c"
  using owner_facts [OF assms(1-3)] assms(4-7)
  by (auto simp: discarded_def)

lemma exec_other_thread:
  "t \<noteq> t' \<Longrightarrow> t < next_tid s \<Longrightarrow> threads (exec opts t' a pc s) t = threads s t"
  by (cases pc)
     (auto simp: op_defs split: answer.splits if_splits option.splits)

lemma terminal_step:
  assumes "lock_inv s" "threads s t = Some pc" "terminal pc"
  shows "threads (step opts e s) t = Some pc"
proof -
  have lt: "t < next_tid s"
    using assms(1,2) unfolding lock_inv_def by (cases "t < next_tid s") auto
  show ?thesis
  proof (cases e)
    case (Run t' a)
    show ?thesis
    proof (cases "t' = t")
      case True
      then show ?thesis using Run assms(2,3) by (cases pc) auto
    next
      case False
      then show ?thesis using Run assms(2) lt
        by (auto simp: exec_other_thread split: option.splits)
    qed
  qed (use assms(2) lt in \<open>auto simp: spawn_def\<close>)
qed

lemma terminal_run:
  assumes "invariant opts s" "threads s t = Some pc" "terminal pc"
  shows "threads (run opts es s) t = Some pc"
  using assms
proof (induction es arbitrary: s)
  case Nil
  then show ?case by simp
next
  case (Cons e es)
  have "lock_inv s" using Cons.prems(1) by (simp add: invariant_def)
  then have "threads (step opts e s) t = Some pc"
    using Cons.prems(2,3) by (rule terminal_step)
  moreover have "invariant opts (step opts e s)"
    using Cons.prems(1) by (rule invariant_step)
  ultimately show ?case using Cons.IH Cons.prems(3) by simp
qed

lemma connects_exec:
  "threads s t = Some pc \<Longrightarrow> connects (exec opts t a pc s) \<noteq> connects s \<Longrightarrow> \<exists>d. pc = S80 d"
  by (cases pc)
     (auto simp: connects_def op_defs remaining_def split: answer.splits if_splits option.splits)

lemma connects_step:
  "connects (step opts e s) \<noteq> connects s \<Longrightarrow>
     \<exists>t a d. e = Run t a \<and> threads s t = Some (S80 d)"
  by (cases e)
     (auto simp: connects_def spawn_def split: option.splits dest: connects_exec [unfolded connects_def])

lemma enter_S80_exec:
  "threads s t' = Some pc \<Longrightarrow> threads (exec opts t' a pc s) t = Some (S80 d) \<Longrightarrow>
     threads s t \<noteq> Some (S80 d) \<Longrightarrow> t' = t \<and> pc = S73 d \<and> connections s = []"
  by (cases pc)
     (auto simp: op_defs remaining_def split: answer.splits if_splits option.splits)

lemma enter_S80_step:
  "threads (step opts e s) t = Some (S80 d) \<Longrightarrow> threads s t \<noteq> Some (S80 d) \<Longrightarrow>
     (\<exists>a. e = Run t a) \<and> threads s t = Some (S73 d) \<and> connections s = []"
  by (cases e)
     (auto simp: spawn_def split: option.splits if_splits dest: enter_S80_exec)

lemma connections_exec:
  "connections (exec opts t a pc s) = connections s
   \<or> (\<exists>c r. pc = S87 c r \<and> connections (exec opts t a pc s) = connections s @ [c])
   \<or> (\<exists>d. pc = S73 d \<and> connections (exec opts t a pc s) = butlast (connections s))
   \<or> (\<exists>c. pc = W46 c \<and> connections (exec opts t a pc s) = remove1 c (connections s))"
  by (cases pc)
     (auto simp: op_defs remaining_def split: answer.splits if_splits option.splits)

lemma connections_step:
  "connections (step opts e s) = connections s
   \<or> (\<exists>t a c r. e = Run t a \<and> threads s t = Some (S87 c r)
         \<and> connections (step opts e s) = connections s @ [c])
   \<or> (\<exists>t a d. e = Run t a \<and> threads s t = Some (S73 d)
         \<and> connections (step opts e s) = butlast (connections s))
   \<or> (\<exists>t a c. e = Run t a \<and> threads s t = Some (W46 c)
         \<and> connections (step opts e s) = remove1 c (connections s))"
proof (cases e)
  case (Run t a)
  show ?thesis
  proof (cases "threads s t")
    case None
    then show ?thesis using Run by simp
  next
    case (Some pc)
    then show ?thesis using Run connections_exec [of opts t a pc s] by auto
  qed
qed (simp_all add: spawn_def)







section \<open>Properties\<close>






text \<open>
  Claim C3 fails on the code. No watchdog ever leaves its loop: in no reachable state has a
  thread of \<^verbatim>\<open>_check_connection\<close> returned. With \<^verbatim>\<open>keep_alive = 5\<close> and
  \<^verbatim>\<open>max_messages = 1\<close>, after one send the connection has been closed by line 83 (its
  socket is closed, its attribute \<^verbatim>\<open>close\<close> is \<^verbatim>\<open>True\<close>), but \<^verbatim>\<open>closed\<close> is still
  \<^verbatim>\<open>False\<close>, and the watchdog at the loop test goes on to line 35. With \<^verbatim>\<open>max_messages = 3\<close>,
  after the watchdog has removed the idle connection and closed it, it is back at the
  loop test, and goes on to line 35 again.
\<close>

theorem watchdog_never_exits:
  "threads (run opts es init) t \<noteq> Some Exited
   \<and> threads (run opts_rot rotated init) 0 = Some (Returned ''ACK'')
   \<and> socket (heap (run opts_rot rotated init) 0) = SockClosed
   \<and> close_attr (heap (run opts_rot rotated init) 0) = Some True
   \<and> closed_attr (heap (run opts_rot rotated init) 0) = False
   \<and> threads (run opts_rot rotated init) 1 = Some (W34 0)
   \<and> threads (step opts_rot (Run 1 (Ret [])) (run opts_rot rotated init)) 1 = Some (W35 0)
   \<and> connections (run opts1 evicted init) = []
   \<and> trace (run opts1 evicted init)
       = [connect_call, send_mllp_call 0 ''MSH'', shutdown_call 0, close_call 0]
   \<and> threads (run opts1 evicted init) 1 = Some (W34 0)
   \<and> threads (step opts1 (Run 1 (Ret [])) (run opts1 evicted init)) 1 = Some (W35 0)"
proof -
  have "pc_inv opts (run opts es init)"
    using invariant_reach [of opts es] by (simp add: invariant_def)
  then have "threads (run opts es init) t = Some Exited \<Longrightarrow> pc_ok opts Exited"
    unfolding pc_inv_def by blast
  then have 1: "threads (run opts es init) t \<noteq> Some Exited" by auto
  have 2: "threads (run opts_rot rotated init) 0 = Some (Returned ''ACK'')"
    "socket (heap (run opts_rot rotated init) 0) = SockClosed"
    "close_attr (heap (run opts_rot rotated init) 0) = Some True"
    "closed_attr (heap (run opts_rot rotated init) 0) = False"
    "threads (run opts_rot rotated init) 1 = Some (W34 0)"
    "threads (step opts_rot (Run 1 (Ret [])) (run opts_rot rotated init)) 1 = Some (W35 0)"
    by (simp_all add: rotated_def to_S82_def to_S81_def to_S80_def opts_rot_def eval_defs)
  have 3: "connections (run opts1 evicted init) = []"
    "trace (run opts1 evicted init)
       = [connect_call, send_mllp_call 0 ''MSH'', shutdown_call 0, close_call 0]"
    "threads (run opts1 evicted init) 1 = Some (W34 0)"
    "threads (step opts1 (Run 1 (Ret [])) (run opts1 evicted init)) 1 = Some (W35 0)"
    by (simp_all add: evicted_def to_S87_def to_S82_def to_S81_def to_S80_def opts1_def
          eval_defs)
  show ?thesis using 1 2 3 by simp
qed







text \<open>
  Claim C6. At line 73 the thread holds the lock. When the idle collection is not empty
  it takes the last element, which is the one appended last among those still there (the
  collection only ever changes by an append at the end at line 87, by this pop of the
  end, or by a watchdog's \<^verbatim>\<open>remove\<close>), sets its \<^verbatim>\<open>last_update\<close> to \<^verbatim>\<open>None\<close> and
  releases the lock; no socket call is made. \<^verbatim>\<open>last_update\<close> stays \<^verbatim>\<open>None\<close> as long as the
  thread is at line 81 or 82. When the collection is empty the thread releases the lock
  and goes to line 80, and \<^verbatim>\<open>connect\<close> is called only there: by a thread that does not
  hold the lock and that came from line 73 with an empty collection.
\<close>

theorem acquire_lifo:
  assumes "threads (run opts es init) t = Some (S73 data)"
  shows "let s = run opts es init; s' = step opts (Run t a) s in
       lock s = Some t \<and> lock s' = None \<and> trace s' = trace s
     \<and> (if connections s \<noteq> [] then
          threads s' t = Some (S81 data (last (connections s)))
          \<and> connections s' = butlast (connections s)
          \<and> last_update (heap s' (last (connections s))) = None
        else threads s' t = Some (S80 data) \<and> connections s' = [])
     \<and> (\<forall>es2 e. let u = run opts es2 init; u' = step opts e u in
          (\<forall>t2 d2 c2. threads u t2 = Some (S81 d2 c2) \<longrightarrow> last_update (heap u c2) = None)
        \<and> (\<forall>t2 c2 r2. threads u t2 = Some (S82 c2 r2) \<longrightarrow> last_update (heap u c2) = None)
        \<and> (\<forall>t2 d2. threads u t2 = Some (S80 d2) \<longrightarrow> lock u \<noteq> Some t2)
        \<and> (connects u' \<noteq> connects u \<longrightarrow>
              (\<exists>t2 a2 d2. e = Run t2 a2 \<and> threads u t2 = Some (S80 d2)))
        \<and> (\<forall>t2 d2. threads u' t2 = Some (S80 d2) \<longrightarrow> threads u t2 \<noteq> Some (S80 d2) \<longrightarrow>
              (\<exists>a2. e = Run t2 a2) \<and> threads u t2 = Some (S73 d2) \<and> connections u = [])
        \<and> (connections u' = connections u
            \<or> (\<exists>t2 a2 c2 r2. e = Run t2 a2 \<and> threads u t2 = Some (S87 c2 r2)
                  \<and> connections u' = connections u @ [c2])
            \<or> (\<exists>t2 a2 d2. e = Run t2 a2 \<and> threads u t2 = Some (S73 d2)
                  \<and> connections u' = butlast (connections u))
            \<or> (\<exists>t2 a2 c2. e = Run t2 a2 \<and> threads u t2 = Some (W46 c2)
                  \<and> connections u' = remove1 c2 (connections u))))"
proof -
  define s where "s = run opts es init"
  define s' where "s' = step opts (Run t a) s"
  have i: "invariant opts s" unfolding s_def by (rule invariant_reach)
  have t: "threads s t = Some (S73 data)" using assms by (simp add: s_def)
  have "locked_by (threads s) t = (lock s = Some t)"
    using i by (simp add: invariant_def lock_inv_def)
  then have 1: "lock s = Some t" using t by (simp add: locked_by_def)
  have 2: "lock s' = None" "trace s' = trace s"
    using t by (simp_all add: s'_def goto_def Let_def)
  have 3: "if connections s \<noteq> [] then
          threads s' t = Some (S81 data (last (connections s)))
          \<and> connections s' = butlast (connections s)
          \<and> last_update (heap s' (last (connections s))) = None
        else threads s' t = Some (S80 data) \<and> connections s' = []"
    using t by (simp add: s'_def goto_def Let_def)
  have 4: "(\<forall>t2 d2 c2. threads u t2 = Some (S81 d2 c2) \<longrightarrow> last_update (heap u c2) = None)
        \<and> (\<forall>t2 c2 r2. threads u t2 = Some (S82 c2 r2) \<longrightarrow> last_update (heap u c2) = None)
        \<and> (\<forall>t2 d2. threads u t2 = Some (S80 d2) \<longrightarrow> lock u \<noteq> Some t2)"
    if u: "invariant opts u" for u
  proof -
    have L: "\<And>t' pc' c. threads u t' = Some pc' \<Longrightarrow> leased pc' c \<Longrightarrow> last_update (heap u c) = None"
      using u by (auto simp: invariant_def leased_inv_def)
    have K: "\<And>t'. locked_by (threads u) t' = (lock u = Some t')"
      using u by (simp add: invariant_def lock_inv_def)
    have "lock u \<noteq> Some t2" if "threads u t2 = Some (S80 d2)" for t2 d2
      using K [of t2] that by (simp add: locked_by_def)
    moreover have "last_update (heap u c2) = None" if "threads u t2 = Some (S81 d2 c2)" for t2 d2 c2
      using L [OF that] by simp
    moreover have "last_update (heap u c2) = None" if "threads u t2 = Some (S82 c2 r2)" for t2 r2 c2
      using L [OF that] by simp
    ultimately show ?thesis by blast
  qed
  show ?thesis
    unfolding Let_def s_def [symmetric] s'_def [symmetric]
    using 1 2 3 4 [OF invariant_reach] connects_step enter_S80_step connections_step
    by (intro conjI allI) blast+
qed

theorem acquire_lifo_witness:
  "threads (run opts1 third_send init) 4 = Some (S73 ''C'')
   \<and> connections (run opts1 third_send init) = [0, 1]
   \<and> threads (step opts1 (Run 4 (Ret [])) (run opts1 third_send init)) 4 = Some (S81 ''C'' 1)
   \<and> connections (step opts1 (Run 4 (Ret [])) (run opts1 third_send init)) = [0]
   \<and> last_update (heap (step opts1 (Run 4 (Ret [])) (run opts1 third_send init)) 1) = None
   \<and> threads (run opts1 to_S80 init) 0 = Some (S80 ''MSH'')
   \<and> lock (run opts1 to_S80 init) \<noteq> Some 0"
proof -
  have a: "threads (run opts1 third_send init) 4 = Some (S73 ''C'')"
    and b: "connections (run opts1 third_send init) = [0, 1]"
    by (simp_all add: third_send_def two_sends_def opts1_def eval_defs)
  have c: "threads (run opts1 to_S80 init) 0 = Some (S80 ''MSH'')"
    by (simp add: to_S80_def opts1_def eval_defs)
  show ?thesis
    using a b c acquire_lifo [OF a, of "Ret []"]
    unfolding Let_def by (simp add: goto_def)
qed

text \<open>
  Claim C7. A network error raised by \<^verbatim>\<open>s.connect\<close> (thread at line 80) or by
  \<^verbatim>\<open>send_mllp\<close> (thread at line 81) leaves \<^verbatim>\<open>MllpClient.send\<close> as that same exception:
  the thread ends in \<open>Raised e\<close> after the one call that failed, stays there in every
  later state and makes no further step (no retry). On a connect failure the idle
  collection, the connection objects, the lock and all other threads are unchanged, so no
  connection is added to the pool.
\<close>

theorem network_errors_propagate:
  "let s = run opts es init; s' = step opts (Run t (Exc e)) s in
     (threads s t = Some (S80 data) \<longrightarrow>
        threads s' t = Some (Raised e) \<and> trace s' = trace s @ [connect_call]
        \<and> connections s' = connections s \<and> heap s' = heap s \<and> next_cid s' = next_cid s
        \<and> lock s' = lock s \<and> next_tid s' = next_tid s
        \<and> (\<forall>t'. t' \<noteq> t \<longrightarrow> threads s' t' = threads s t')
        \<and> (\<forall>es'. threads (run opts es' s') t = Some (Raised e)))
     \<and> (threads s t = Some (S81 data c) \<longrightarrow>
        threads s' t = Some (Raised e) \<and> trace s' = trace s @ [send_mllp_call c data]
        \<and> connections s' = connections s \<and> next_cid s' = next_cid s
        \<and> lock s' = lock s \<and> next_tid s' = next_tid s
        \<and> (\<forall>t'. t' \<noteq> t \<longrightarrow> threads s' t' = threads s t')
        \<and> (\<forall>es'. threads (run opts es' s') t = Some (Raised e)))
     \<and> (\<forall>u a. threads u t = Some (Raised e) \<longrightarrow> step opts (Run t a) u = u)"
proof -
  define s where "s = run opts es init"
  define s' where "s' = step opts (Run t (Exc e)) s"
  have i: "invariant opts s'"
    unfolding s'_def s_def by (intro invariant_step invariant_reach)
  have stay: "threads s' t = Some (Raised e) \<Longrightarrow> threads (run opts es' s') t = Some (Raised e)"
    for es'
    using terminal_run [OF i] by simp
  have a: "threads s t = Some (S80 data) \<Longrightarrow>
        threads s' t = Some (Raised e) \<and> trace s' = trace s @ [connect_call]
        \<and> connections s' = connections s \<and> heap s' = heap s \<and> next_cid s' = next_cid s
        \<and> lock s' = lock s \<and> next_tid s' = next_tid s
        \<and> (\<forall>t'. t' \<noteq> t \<longrightarrow> threads s' t' = threads s t')"
    by (simp add: s'_def op_defs)
  have b: "threads s t = Some (S81 data c) \<Longrightarrow>
        threads s' t = Some (Raised e) \<and> trace s' = trace s @ [send_mllp_call c data]
        \<and> connections s' = connections s \<and> next_cid s' = next_cid s
        \<and> lock s' = lock s \<and> next_tid s' = next_tid s
        \<and> (\<forall>t'. t' \<noteq> t \<longrightarrow> threads s' t' = threads s t')"
    by (simp add: s'_def op_defs)
  have c: "\<forall>u a. threads u t = Some (Raised e) \<longrightarrow> step opts (Run t a) u = u"
    by simp
  show ?thesis
    unfolding Let_def s_def [symmetric] s'_def [symmetric]
    using a b c stay by blast
qed

theorem network_errors_propagate_witness:
  "threads (run opts1 to_S80 init) 0 = Some (S80 ''MSH'')
   \<and> threads (step opts1 (Run 0 (Exc (OSError 111))) (run opts1 to_S80 init)) 0
       = Some (Raised (OSError 111))
   \<and> connections (step opts1 (Run 0 (Exc (OSError 111))) (run opts1 to_S80 init))
       = connections (run opts1 to_S80 init)
   \<and> threads (run opts1 to_S81 init) 0 = Some (S81 ''MSH'' 0)
   \<and> threads (step opts1 (Run 0 (Exc (OSError 104))) (run opts1 to_S81 init)) 0
       = Some (Raised (OSError 104))
   \<and> trace (step opts1 (Run 0 (Exc (OSError 104))) (run opts1 to_S81 init))
       = trace (run opts1 to_S81 init) @ [send_mllp_call 0 ''MSH'']"
proof -
  have a: "threads (run opts1 to_S80 init) 0 = Some (S80 ''MSH'')"
    by (simp add: to_S80_def opts1_def eval_defs)
  have b: "threads (run opts1 to_S81 init) 0 = Some (S81 ''MSH'' 0)"
    by (simp add: to_S81_def to_S80_def opts1_def eval_defs)
  show ?thesis
    using a b
      network_errors_propagate [of opts1 to_S80 0 "OSError 111" "''MSH''" 0]
      network_errors_propagate [of opts1 to_S81 0 "OSError 104" "''MSH''" 0]
    unfolding Let_def by blast
qed

text \<open>
  Claim C8. For every POST whose \<^verbatim>\<open>self.mllp_client.send\<close> returns the acknowledgement
  \<open>ack\<close>, \<^verbatim>\<open>do_POST\<close> answers with status 201, writes exactly \<open>ack\<close> as the body and
  sends one \<^verbatim>\<open>Content-Length\<close> header, whose value is the length of \<open>ack\<close>.
\<close>

theorem do_POST_created:
  assumes "content_length h = Some v" and "int_of v = Some n"
    and "send (rfile_read n (rfile h)) = Inr ack"
  shows "\<exists>r. do_POST int_of send h = Inr r \<and> status r = 201 \<and> wfile r = ack
           \<and> map_of (headers r) ''Content-Length'' = Some (Length (length ack))
           \<and> length (filter (\<lambda>kv. fst kv = ''Content-Length'') (headers r)) = 1"
  using assms
  by (auto simp: do_POST_def Let_def split: option.splits)

theorem do_POST_created_witness:
  "content_length h1 = Some ''3'' \<and> int1 ''3'' = Some 3
   \<and> send1 (rfile_read 3 (rfile h1)) = Inr ''ACK!''
   \<and> (\<exists>r. do_POST int1 send1 h1 = Inr r \<and> status r = 201 \<and> wfile r = ''ACK!''
           \<and> map_of (headers r) ''Content-Length'' = Some (Length (length ''ACK!''))
           \<and> length (filter (\<lambda>kv. fst kv = ''Content-Length'') (headers r)) = 1)"
proof -
  have a: "content_length h1 = Some ''3''" by (simp add: h1_def)
  have b: "int1 ''3'' = Some 3" by (simp add: int1_def)
  have c: "send1 (rfile_read 3 (rfile h1)) = Inr ''ACK!''"
    by (simp add: send1_def rfile_read_def h1_def)
  show ?thesis
    using a b c
      do_POST_created [where h = h1 and v = "''3''" and int_of = int1 and n = 3
        and send = send1 and ack = "''ACK!''"]
    by simp
qed

text \<open>
  Claim C9. When \<^verbatim>\<open>connection.send(data)\<close> raises on the leased connection \<open>c\<close>, the
  exception leaves \<^verbatim>\<open>MllpClient.send\<close>; the step makes the one \<^verbatim>\<open>send_mllp\<close> call and no
  \<^verbatim>\<open>shutdown\<close> or \<^verbatim>\<open>close\<close>, and leaves the idle collection as it was. The connection
  is not in the idle collection and is not closed, and in every later state it is still
  neither in the idle collection nor held by any thread, with its socket still open.
\<close>

theorem send_failure_drops_connection:
  assumes "threads (run opts es init) t = Some (S81 data c)"
  shows "let s = run opts es init; s' = step opts (Run t (Exc e)) s in
       threads s' t = Some (Raised e)
     \<and> connections s' = connections s \<and> c \<notin> set (connections s')
     \<and> trace s' = trace s @ [send_mllp_call c data]
     \<and> socket (heap s' c) = SockConnected \<and> close_attr (heap s' c) = None
     \<and> (\<forall>es'. discarded (run opts es' s') c
            \<and> socket (heap (run opts es' s') c) = SockConnected
            \<and> close_attr (heap (run opts es' s') c) = None)"
proof -
  define s where "s = run opts es init"
  define s' where "s' = step opts (Run t (Exc e)) s"
  have i: "invariant opts s" unfolding s_def by (rule invariant_reach)
  have t: "threads s t = Some (S81 data c)" using assms by (simp add: s_def)
  have o: "owns (S81 data c) c" by simp
  note f = owner_facts [OF i t o]
  have 1: "threads s' t = Some (Raised e)" "connections s' = connections s"
    "trace s' = trace s @ [send_mllp_call c data]"
    "socket (heap s' c) = SockConnected" "close_attr (heap s' c) = None"
    using t f(3,4) by (simp_all add: s'_def op_defs)
  have 2: "c \<notin> set (connections s')" using f(1) 1(2) by simp
  have "discarded s' c"
    using i t o
  proof (rule release_owner)
    show "threads s' = (threads s)(t \<mapsto> Raised e)"
      using t by (simp add: s'_def op_defs)
  qed (use t in \<open>simp_all add: s'_def op_defs\<close>)
  then have 3: "discarded (run opts es' s') c \<and> heap (run opts es' s') c = heap s' c" for es'
    by (rule discarded_run)
  show ?thesis
    unfolding Let_def s_def [symmetric] s'_def [symmetric]
    using 1 2 3 by simp
qed

theorem send_failure_drops_connection_witness:
  "threads (run opts1 to_S81 init) 0 = Some (S81 ''MSH'' 0)
   \<and> threads (step opts1 (Run 0 (Exc (OSError 104))) (run opts1 to_S81 init)) 0
       = Some (Raised (OSError 104))
   \<and> connections (step opts1 (Run 0 (Exc (OSError 104))) (run opts1 to_S81 init)) = []
   \<and> socket (heap (run opts1 after_failure
         (step opts1 (Run 0 (Exc (OSError 104))) (run opts1 to_S81 init))) 0) = SockConnected
   \<and> 0 \<notin> set (connections (run opts1 after_failure
         (step opts1 (Run 0 (Exc (OSError 104))) (run opts1 to_S81 init))))"
proof -
  have a: "threads (run opts1 to_S81 init) 0 = Some (S81 ''MSH'' 0)"
    by (simp add: to_S81_def to_S80_def opts1_def eval_defs)
  have b: "connections (run opts1 to_S81 init) = []"
    by (simp add: to_S81_def to_S80_def opts1_def eval_defs)
  show ?thesis
    using a b send_failure_drops_connection [OF a, of "OSError 104"]
    unfolding Let_def discarded_def by simp
qed

text \<open>
  Claim C10. \<^verbatim>\<open>MllpConnection.close\<close> never sets \<^verbatim>\<open>closed\<close>: in every reachable state
  every connection has \<^verbatim>\<open>closed\<close> equal to \<^verbatim>\<open>False\<close>, also after \<^verbatim>\<open>close()\<close>; what
  \<^verbatim>\<open>close()\<close> binds to \<^verbatim>\<open>True\<close> is the attribute \<^verbatim>\<open>close\<close>; and a second \<^verbatim>\<open>close()\<close> on
  the same connection raises \<^verbatim>\<open>TypeError\<close>, whatever the socket answers.
\<close>

theorem close_never_sets_closed:
  "\<not> closed_attr (heap (run opts es init) c)
   \<and> \<not> closed_attr (heap (snd (MllpConnection_close c a (run opts es init))) c)
   \<and> close_attr (heap (snd (MllpConnection_close c a (run opts es init))) c) = Some True
   \<and> fst (MllpConnection_close c a' (snd (MllpConnection_close c a s))) = Some TypeError"
proof -
  have "flags_ok (run opts es init)"
    using invariant_reach [of opts es] by (simp add: invariant_def)
  then have 1: "\<not> closed_attr (heap (run opts es init) c)"
    and 2: "close_attr (heap (run opts es init) c) \<noteq> Some False"
    by (simp_all add: flags_ok_def)
  show ?thesis
    using 1 2
    by (auto simp: MllpConnection_close_def Let_def split: option.splits answer.splits)
qed

end
